theory Spec2Isabelle
  imports Main "HOL-Library.Word"
begin

section \<open>The lock of simple\_threading.c\<close>

text \<open>
  The struct \<^verbatim>\<open>simple_lock_t\<close> (lines 17-21): two volatile booleans and an \<^verbatim>\<open>int\<close>.
  The spec calls the fields held, guard and waiters. The \<^verbatim>\<open>int\<close> is a 32-bit word:
  the atomic add and subtract wrap around, and \<open>sint\<close> reads the signed value.
\<close>

record simple_lock_t =
  flag :: bool
  guard :: bool
  queue :: "32 word"

subsection \<open>Shared-memory accesses\<close>

text \<open>
  Every statement of the lock functions that touches the shared struct is one access,
  labelled with the memory order the source gives it. A plain assignment to or read of a
  \<^verbatim>\<open>volatile bool\<close> field carries no memory order at all. \<^verbatim>\<open>usleep\<close> is kept as an
  access that changes nothing, so that delays are visible in a thread's path.
\<close>

datatype memorder = ATOMIC_ACQUIRE | ATOMIC_RELEASE | ATOMIC_SEQ_CST

datatype field = Flag | Guard

datatype access =
    Atomic_fetch_add "32 word" memorder
  | Atomic_fetch_sub "32 word" memorder
  | Atomic_test_and_set field memorder
  | Atomic_store_n field bool memorder
  | Volatile_load field
  | Volatile_store field bool
  | Usleep nat

datatype val = Bool_val bool | Int_val "32 word" | No_val

fun load_field :: "field \<Rightarrow> simple_lock_t \<Rightarrow> bool" where
  "load_field Flag l = flag l"
| "load_field Guard l = guard l"

fun store_field :: "field \<Rightarrow> bool \<Rightarrow> simple_lock_t \<Rightarrow> simple_lock_t" where
  "store_field Flag b l = l\<lparr>flag := b\<rparr>"
| "store_field Guard b l = l\<lparr>guard := b\<rparr>"

text \<open>
  The effect of one access on the struct and the value it returns, when the access
  takes effect on the struct at once; the memory order is not used here. This is what
  a thread running alone sees, and what an atomic access does to the memory; the
  visibility of plain stores to other threads is in \<open>weak_access\<close> below. The
  fetch-and-add and fetch-and-subtract act on \<^verbatim>\<open>queue\<close>, the only integer field.
\<close>

fun do_access :: "access \<Rightarrow> simple_lock_t \<Rightarrow> val \<times> simple_lock_t" where
  "do_access (Atomic_fetch_add n mo) l = (Int_val (queue l), l\<lparr>queue := queue l + n\<rparr>)"
| "do_access (Atomic_fetch_sub n mo) l = (Int_val (queue l), l\<lparr>queue := queue l - n\<rparr>)"
| "do_access (Atomic_test_and_set f mo) l = (Bool_val (load_field f l), store_field f True l)"
| "do_access (Atomic_store_n f b mo) l = (No_val, store_field f b l)"
| "do_access (Volatile_load f) l = (Bool_val (load_field f l), l)"
| "do_access (Volatile_store f b) l = (No_val, store_field f b l)"
| "do_access (Usleep us) l = (No_val, l)"

text \<open>C truth of a value used as a condition.\<close>

fun truthy :: "val \<Rightarrow> bool" where
  "truthy (Bool_val b) = b"
| "truthy (Int_val w) = (w \<noteq> 0)"
| "truthy No_val = False"

subsection \<open>simple\_lock\_init (lines 24-28)\<close>

definition simple_lock_init :: "simple_lock_t \<Rightarrow> simple_lock_t" where
  "simple_lock_init l = l\<lparr>flag := False, guard := False, queue := 0\<rparr>"

subsection \<open>simple\_lock\_release (lines 61-64)\<close>

definition release_access :: access where
  "release_access = Atomic_store_n Flag False ATOMIC_RELEASE"

definition simple_lock_release :: "simple_lock_t \<Rightarrow> simple_lock_t" where
  "simple_lock_release l = snd (do_access release_access l)"

subsection \<open>simple\_lock\_acquire (lines 31-58)\<close>

text \<open>
  The control points of \<^verbatim>\<open>simple_lock_acquire\<close>, named by the source line of the
  statement about to run:
  \<^verbatim>\<open>
  33   __atomic_fetch_add(&lock->queue, 1, __ATOMIC_SEQ_CST);
  36   while (true) {
  38     while (__atomic_test_and_set(&lock->guard, __ATOMIC_ACQUIRE)) {
  40       usleep(10);
         }
  44     if (!lock->flag) {
  46       lock->flag = true;
  47       lock->guard = false;
  48       break;
         }
  52     lock->guard = false;
  53     usleep(100);
       }
  57   __atomic_fetch_sub(&lock->queue, 1, __ATOMIC_SEQ_CST);
  \<close>
\<close>

datatype acq_pc = L33 | L38 | L40 | L44 | L46 | L47 | L52 | L53 | L57

fun access_at :: "acq_pc \<Rightarrow> access" where
  "access_at L33 = Atomic_fetch_add 1 ATOMIC_SEQ_CST"
| "access_at L38 = Atomic_test_and_set Guard ATOMIC_ACQUIRE"
| "access_at L40 = Usleep 10"
| "access_at L44 = Volatile_load Flag"
| "access_at L46 = Volatile_store Flag True"
| "access_at L47 = Volatile_store Guard False"
| "access_at L52 = Volatile_store Guard False"
| "access_at L53 = Usleep 100"
| "access_at L57 = Atomic_fetch_sub 1 ATOMIC_SEQ_CST"

text \<open>
  The control point after the statement, given the value its access returned;
  \<open>None\<close> is the return of the function.
\<close>

fun next_pc :: "acq_pc \<Rightarrow> val \<Rightarrow> acq_pc option" where
  "next_pc L33 v = Some L38"
| "next_pc L38 v = (if truthy v then Some L40 else Some L44)"
| "next_pc L40 v = Some L38"
| "next_pc L44 v = (if \<not> truthy v then Some L46 else Some L52)"
| "next_pc L46 v = Some L47"
| "next_pc L47 v = Some L57"
| "next_pc L52 v = Some L53"
| "next_pc L53 v = Some L38"
| "next_pc L57 v = None"

definition acquire_step :: "acq_pc \<Rightarrow> simple_lock_t \<Rightarrow> acq_pc option \<times> simple_lock_t" where
  "acquire_step pc l = (case do_access (access_at pc) l of (v, l') \<Rightarrow> (next_pc pc v, l'))"

text \<open>
  A call of \<^verbatim>\<open>simple_lock_acquire\<close> by a thread that runs alone: the loops may spin
  forever, so the run takes fuel (a bound on the number of statements) and \<open>None\<close>
  means that the call has not returned within it.
\<close>

fun acquire_from :: "nat \<Rightarrow> acq_pc \<Rightarrow> simple_lock_t \<Rightarrow> simple_lock_t option" where
  "acquire_from 0 pc l = None"
| "acquire_from (Suc n) pc l =
     (case acquire_step pc l of
        (None, l') \<Rightarrow> Some l'
      | (Some pc', l') \<Rightarrow> acquire_from n pc' l')"

definition simple_lock_acquire :: "nat \<Rightarrow> simple_lock_t \<Rightarrow> simple_lock_t option" where
  "simple_lock_acquire n l = acquire_from n L33 l"

text \<open>
  The path of such a call: the control points it visits, each with the state of the
  struct in which its statement is about to run.
\<close>

fun acquire_path :: "nat \<Rightarrow> acq_pc \<Rightarrow> simple_lock_t \<Rightarrow> (acq_pc \<times> simple_lock_t) list" where
  "acquire_path 0 pc l = []"
| "acquire_path (Suc n) pc l =
     (pc, l) # (case acquire_step pc l of
        (None, l') \<Rightarrow> []
      | (Some pc', l') \<Rightarrow> acquire_path n pc' l')"

text \<open>
  A call of \<^verbatim>\<open>simple_lock_acquire\<close> by a thread among others: between two of its
  statements the other threads may have changed the struct in any way, so each statement
  runs in a state of its own, the next one of the list. The result is the list of the
  accesses the thread has performed and where it is when the list is used up
  (\<open>None\<close>: it has returned).
\<close>

fun acquire_among :: "acq_pc \<Rightarrow> simple_lock_t list \<Rightarrow> access list \<times> acq_pc option" where
  "acquire_among pc [] = ([], Some pc)"
| "acquire_among pc (l # ls) =
     (case acquire_step pc l of
        (None, l') \<Rightarrow> ([access_at pc], None)
      | (Some pc', l') \<Rightarrow>
          (case acquire_among pc' ls of (as, r) \<Rightarrow> (access_at pc # as, r)))"

text \<open>Kinds of accesses: a store of false to a field; an access to \<^verbatim>\<open>queue\<close>; the
  memory order of an access, \<open>None\<close> for a plain volatile access or a delay.\<close>

fun clears :: "field \<Rightarrow> access \<Rightarrow> bool" where
  "clears f (Atomic_store_n f' b mo) = (f' = f \<and> \<not> b)"
| "clears f (Volatile_store f' b) = (f' = f \<and> \<not> b)"
| "clears f a = False"

fun queue_access :: "access \<Rightarrow> bool" where
  "queue_access (Atomic_fetch_add n mo) = True"
| "queue_access (Atomic_fetch_sub n mo) = True"
| "queue_access a = False"

fun order_of :: "access \<Rightarrow> memorder option" where
  "order_of (Atomic_fetch_add n mo) = Some mo"
| "order_of (Atomic_fetch_sub n mo) = Some mo"
| "order_of (Atomic_test_and_set f mo) = Some mo"
| "order_of (Atomic_store_n f b mo) = Some mo"
| "order_of (Volatile_load f) = None"
| "order_of (Volatile_store f b) = None"
| "order_of (Usleep us) = None"

text \<open>The last three accesses of a call that returns (lines 46, 47 and 57).\<close>

definition acquired_tail :: "access list" where
  "acquired_tail = [Volatile_store Flag True, Volatile_store Guard False,
     Atomic_fetch_sub 1 ATOMIC_SEQ_CST]"

text \<open>What is left of the struct when \<^verbatim>\<open>queue\<close> is ignored.\<close>

definition view :: "simple_lock_t \<Rightarrow> bool \<times> bool" where
  "view l = (flag l, guard l)"



subsection \<open>The worker threads (lines 70-88 and 90-118)\<close>

text \<open>
  Each worker calls \<^verbatim>\<open>simple_lock_acquire\<close>, runs its critical section and calls
  \<^verbatim>\<open>simple_lock_release\<close>, as \<^verbatim>\<open>thread_function\<close> does.
\<close>

text \<open>
  Modelled from the spec: the critical section of a worker. The source prints and
  sleeps there; the spec's mutual-exclusion test puts an increment of a shared
  non-atomic counter there, which is a load of the counter into a thread-local temporary
  (\<open>Critical_load\<close>) followed by a store of the temporary plus one (\<open>Critical_store\<close>).
\<close>

datatype worker_pc =
    Acquire acq_pc
  | Critical_load
  | Critical_store int
  | Release
  | Finished

record sys_state =
  lock :: simple_lock_t
  counter :: int
  workers :: "worker_pc list"

fun thread_function_step :: "worker_pc \<Rightarrow> simple_lock_t \<Rightarrow> int \<Rightarrow> worker_pc \<times> simple_lock_t \<times> int" where
  "thread_function_step (Acquire pc) l c =
     (case acquire_step pc l of
        (Some pc', l') \<Rightarrow> (Acquire pc', l', c)
      | (None, l') \<Rightarrow> (Critical_load, l', c))"
| "thread_function_step Critical_load l c = (Critical_store c, l, c)"
| "thread_function_step (Critical_store tmp) l c = (Release, l, tmp + 1)"
| "thread_function_step Release l c = (Finished, simple_lock_release l, c)"
| "thread_function_step Finished l c = (Finished, l, c)"

text \<open>
  One step of the system in which every access takes effect at once and in program
  order: the scheduler picks worker \<open>i\<close>, which runs one statement. An index that
  names no worker changes nothing. The source guarantees this order for its atomic
  accesses to \<^verbatim>\<open>queue\<close> only; for the plain stores of lines 46, 47 and 52 see the
  system with store buffers below, of which this one is the special case where each
  store becomes visible right away (\<open>weak_admits_every_interleaving\<close>).
\<close>

definition sys_step :: "nat \<Rightarrow> sys_state \<Rightarrow> sys_state" where
  "sys_step i s =
     (if i < length (workers s) then
        (case thread_function_step (workers s ! i) (lock s) (counter s) of
           (w', l', c') \<Rightarrow> \<lparr>lock = l', counter = c', workers = (workers s)[i := w']\<rparr>)
      else s)"

text \<open>An interleaving of that system is the list of the scheduler's picks.\<close>

fun run :: "nat list \<Rightarrow> sys_state \<Rightarrow> sys_state" where
  "run [] s = s"
| "run (i # sched) s = run sched (sys_step i s)"

text \<open>
  \<^verbatim>\<open>main\<close> initialises the global lock, whatever it held, and then starts the workers.
\<close>

definition sys_init :: "simple_lock_t \<Rightarrow> nat \<Rightarrow> sys_state" where
  "sys_init l0 n = \<lparr>lock = simple_lock_init l0, counter = 0, workers = replicate n (Acquire L33)\<rparr>"

text \<open>Counting the workers that satisfy a predicate.\<close>

definition cnt :: "('a \<Rightarrow> bool) \<Rightarrow> 'a list \<Rightarrow> nat" where
  "cnt P xs = length (filter P xs)"

subsection \<open>Plain stores that other threads see late\<close>

text \<open>
  The stores of lines 46, 47 and 52 are plain assignments to volatile fields. The
  source gives them no memory order, so nothing makes them visible to the other threads
  at once or in program order. Each thread has a buffer of the plain stores it has
  issued and the others do not see yet. The thread itself reads its own latest pending
  store. A pending store may become visible at any time, before or after pending
  stores to the other field, but after the thread's earlier pending stores to the same
  field. An atomic access acts on the memory; the thread's pending stores to the same
  field become visible first, and with release or sequentially consistent order all
  its pending stores do (the decrement of line 57 and the store of release); acquire
  order does not push earlier stores out.
\<close>

type_synonym store_buffer = "(field \<times> bool) list"

fun orders_earlier_stores :: "memorder \<Rightarrow> bool" where
  "orders_earlier_stores ATOMIC_ACQUIRE = False"
| "orders_earlier_stores ATOMIC_RELEASE = True"
| "orders_earlier_stores ATOMIC_SEQ_CST = True"

text \<open>All pending stores become visible, in program order.\<close>

fun drain :: "store_buffer \<Rightarrow> simple_lock_t \<Rightarrow> simple_lock_t" where
  "drain [] l = l"
| "drain ((f, b) # sb) l = drain sb (store_field f b l)"

text \<open>The thread's latest pending store to a field, if any.\<close>

fun pending :: "field \<Rightarrow> store_buffer \<Rightarrow> bool option" where
  "pending f [] = None"
| "pending f ((g, b) # sb) =
     (case pending f sb of
        Some v \<Rightarrow> Some v
      | None \<Rightarrow> (if g = f then Some b else None))"

definition to_field :: "field \<Rightarrow> field \<times> bool \<Rightarrow> bool" where
  "to_field f e = (fst e = f)"

fun weak_access :: "access \<Rightarrow> store_buffer \<Rightarrow> simple_lock_t
    \<Rightarrow> val \<times> store_buffer \<times> simple_lock_t" where
  "weak_access (Volatile_store f b) sb l = (No_val, sb @ [(f, b)], l)"
| "weak_access (Volatile_load f) sb l =
     (Bool_val (case pending f sb of Some v \<Rightarrow> v | None \<Rightarrow> load_field f l), sb, l)"
| "weak_access (Usleep us) sb l = (No_val, sb, l)"
| "weak_access (Atomic_test_and_set f mo) sb l =
     (if orders_earlier_stores mo
      then (case do_access (Atomic_test_and_set f mo) (drain sb l) of (v, l') \<Rightarrow> (v, [], l'))
      else (case do_access (Atomic_test_and_set f mo) (drain (filter (to_field f) sb) l) of
              (v, l') \<Rightarrow> (v, filter (\<lambda>e. \<not> to_field f e) sb, l')))"
| "weak_access (Atomic_store_n f b mo) sb l =
     (if orders_earlier_stores mo
      then (case do_access (Atomic_store_n f b mo) (drain sb l) of (v, l') \<Rightarrow> (v, [], l'))
      else (case do_access (Atomic_store_n f b mo) (drain (filter (to_field f) sb) l) of
              (v, l') \<Rightarrow> (v, filter (\<lambda>e. \<not> to_field f e) sb, l')))"
| "weak_access (Atomic_fetch_add n mo) sb l =
     (if orders_earlier_stores mo
      then (case do_access (Atomic_fetch_add n mo) (drain sb l) of (v, l') \<Rightarrow> (v, [], l'))
      else (case do_access (Atomic_fetch_add n mo) l of (v, l') \<Rightarrow> (v, sb, l')))"
| "weak_access (Atomic_fetch_sub n mo) sb l =
     (if orders_earlier_stores mo
      then (case do_access (Atomic_fetch_sub n mo) (drain sb l) of (v, l') \<Rightarrow> (v, [], l'))
      else (case do_access (Atomic_fetch_sub n mo) l of (v, l') \<Rightarrow> (v, sb, l')))"

text \<open>
  The workers again, each with its buffer. The accesses to the shared counter in the
  critical section are left as they were: they act on the memory at once.
\<close>

record weak_state =
  memory :: simple_lock_t
  shared_counter :: int
  threads :: "(worker_pc \<times> store_buffer) list"

fun weak_thread_step :: "worker_pc \<Rightarrow> store_buffer \<Rightarrow> simple_lock_t \<Rightarrow> int
    \<Rightarrow> (worker_pc \<times> store_buffer) \<times> simple_lock_t \<times> int" where
  "weak_thread_step (Acquire pc) sb l c =
     (case weak_access (access_at pc) sb l of
        (v, sb', l') \<Rightarrow>
          (case next_pc pc v of
             Some pc' \<Rightarrow> ((Acquire pc', sb'), l', c)
           | None \<Rightarrow> ((Critical_load, sb'), l', c)))"
| "weak_thread_step Critical_load sb l c = ((Critical_store c, sb), l, c)"
| "weak_thread_step (Critical_store tmp) sb l c = ((Release, sb), l, tmp + 1)"
| "weak_thread_step Release sb l c =
     (case weak_access release_access sb l of (v, sb', l') \<Rightarrow> ((Finished, sb'), l', c))"
| "weak_thread_step Finished sb l c = ((Finished, sb), l, c)"

text \<open>
  What happens next: worker \<open>i\<close> runs one statement (\<open>Exec i\<close>), or the pending store
  number \<open>j\<close> of worker \<open>i\<close> becomes visible (\<open>Visible i j\<close>). An event that names no
  worker or no store that may become visible changes nothing.
\<close>

datatype event = Exec nat | Visible nat nat

definition may_become_visible :: "nat \<Rightarrow> store_buffer \<Rightarrow> bool" where
  "may_become_visible j sb = (j < length sb \<and> fst (sb ! j) \<notin> fst ` set (take j sb))"

fun weak_step :: "event \<Rightarrow> weak_state \<Rightarrow> weak_state" where
  "weak_step (Exec i) w =
     (if i < length (threads w) then
        (case threads w ! i of
           (pc, sb) \<Rightarrow>
             (case weak_thread_step pc sb (memory w) (shared_counter w) of
                (t', l', c') \<Rightarrow>
                  \<lparr>memory = l', shared_counter = c', threads = (threads w)[i := t']\<rparr>))
      else w)"
| "weak_step (Visible i j) w =
     (if i < length (threads w) then
        (case threads w ! i of
           (pc, sb) \<Rightarrow>
             (if may_become_visible j sb then
                w\<lparr>memory := store_field (fst (sb ! j)) (snd (sb ! j)) (memory w),
                  threads := (threads w)[i := (pc, take j sb @ drop (Suc j) sb)]\<rparr>
              else w))
      else w)"

fun weak_run :: "event list \<Rightarrow> weak_state \<Rightarrow> weak_state" where
  "weak_run [] w = w"
| "weak_run (e # es) w = weak_run es (weak_step e w)"

definition weak_init :: "simple_lock_t \<Rightarrow> nat \<Rightarrow> weak_state" where
  "weak_init l0 n = \<lparr>memory = simple_lock_init l0, shared_counter = 0,
     threads = replicate n (Acquire L33, [])\<rparr>"

text \<open>
  The system in which every access takes effect at once, seen as one with empty
  buffers, and its interleavings, seen as events: each statement is followed by its
  store becoming visible.
\<close>

definition weak_of :: "sys_state \<Rightarrow> weak_state" where
  "weak_of s = \<lparr>memory = lock s, shared_counter = counter s,
     threads = map (\<lambda>pc. (pc, [])) (workers s)\<rparr>"

definition at_once :: "nat list \<Rightarrow> event list" where
  "at_once sched = concat (map (\<lambda>i. [Exec i, Visible i 0]) sched)"

subsection \<open>Where a worker is\<close>

text \<open>
  \<open>holds_guard\<close>: between the test-and-set of line 38 that found \<^verbatim>\<open>guard\<close> false and
  the worker's own store that clears it (line 47 or 52).
  \<open>holds_flag\<close>: between the store of line 46 that sets \<^verbatim>\<open>flag\<close> and the worker's
  own release.
  \<open>owns_lock\<close>: the call of acquire has returned and release has not run yet.
  \<open>in_critical\<close>: inside the critical section.
  \<open>contending\<close>: inside acquire after the increment of line 33 and before the
  decrement of line 57 has run.
  \<open>incremented\<close>: the worker's store to the shared counter has run.
\<close>

fun holds_guard :: "worker_pc \<Rightarrow> bool" where
  "holds_guard (Acquire pc) = (pc = L44 \<or> pc = L46 \<or> pc = L47 \<or> pc = L52)"
| "holds_guard w = False"

fun holds_flag :: "worker_pc \<Rightarrow> bool" where
  "holds_flag (Acquire pc) = (pc = L47 \<or> pc = L57)"
| "holds_flag Critical_load = True"
| "holds_flag (Critical_store tmp) = True"
| "holds_flag Release = True"
| "holds_flag Finished = False"

fun owns_lock :: "worker_pc \<Rightarrow> bool" where
  "owns_lock Critical_load = True"
| "owns_lock (Critical_store tmp) = True"
| "owns_lock Release = True"
| "owns_lock w = False"

fun in_critical :: "worker_pc \<Rightarrow> bool" where
  "in_critical Critical_load = True"
| "in_critical (Critical_store tmp) = True"
| "in_critical w = False"

fun contending :: "worker_pc \<Rightarrow> bool" where
  "contending (Acquire pc) = (pc \<noteq> L33)"
| "contending w = False"

fun incremented :: "worker_pc \<Rightarrow> bool" where
  "incremented Release = True"
| "incremented Finished = True"
| "incremented w = False"

fun about_to_set :: "worker_pc \<Rightarrow> bool" where
  "about_to_set (Acquire pc) = (pc = L46)"
| "about_to_set w = False"

fun in_store :: "worker_pc \<Rightarrow> bool" where
  "in_store (Critical_store tmp) = True"
| "in_store w = False"

fun stale :: "int \<Rightarrow> worker_pc \<Rightarrow> bool" where
  "stale c (Critical_store tmp) = (tmp \<noteq> c)"
| "stale c w = False"

definition all_finished :: "sys_state \<Rightarrow> bool" where
  "all_finished s = list_all (\<lambda>w. w = Finished) (workers s)"

text \<open>
  The invariant of the system: \<^verbatim>\<open>guard\<close> is true exactly when one worker holds it, and
  \<^verbatim>\<open>flag\<close> exactly when one worker holds it; a worker about to set \<^verbatim>\<open>flag\<close> has seen
  it false and it still is; a temporary read from the counter is still the counter;
  the counter counts the finished increments and \<^verbatim>\<open>queue\<close> the contending workers.
\<close>

definition lock_inv :: "sys_state \<Rightarrow> bool" where
  "lock_inv s =
     (cnt holds_guard (workers s) = (if guard (lock s) then 1 else 0)
    \<and> cnt holds_flag (workers s) = (if flag (lock s) then 1 else 0)
    \<and> (flag (lock s) \<longrightarrow> cnt about_to_set (workers s) = 0)
    \<and> cnt (stale (counter s)) (workers s) = 0
    \<and> int (cnt incremented (workers s)) = counter s
    \<and> of_nat (cnt contending (workers s)) = queue (lock s))"

definition sys_view :: "sys_state \<Rightarrow> (bool \<times> bool) \<times> int \<times> worker_pc list" where
  "sys_view s = (view (lock s), counter s, workers s)"

subsection \<open>The loop of acquire in the spec's words\<close>

text \<open>
  Written from the spec, not from the source, to be compared with \<open>acquire_step\<close>.
  The loop: (a) spin, with a short delay between attempts (tens of microseconds), until
  a test-and-set takes \<^verbatim>\<open>guard\<close> from false to true; (b) if held is false, set held
  to true, clear \<^verbatim>\<open>guard\<close> and leave the loop; (c) otherwise clear \<^verbatim>\<open>guard\<close>, sleep
  briefly (on the order of 100 microseconds) and retry from (a).
  \<open>spec_loop c a l\<close> is the state after action \<open>a\<close> in state \<open>c\<close> with the struct \<open>l\<close>,
  or \<open>None\<close> when the spec does not allow \<open>a\<close> there.
\<close>

datatype spec_state =
    Take_guard | Spin_delay | Inspect_held | Set_held
  | Clear_guard_acquired | Clear_guard_retry | Retry_sleep | Loop_exit

datatype spec_action =
    Test_and_set_guard bool | Delay nat | Read_held bool | Write_held bool | Write_guard bool

definition short_delay :: "nat \<Rightarrow> bool" where
  "short_delay us = (10 \<le> us \<and> us < 100)"

definition brief_sleep :: "nat \<Rightarrow> bool" where
  "brief_sleep us = (100 \<le> us \<and> us < 1000)"

fun spec_loop :: "spec_state \<Rightarrow> spec_action \<Rightarrow> simple_lock_t
    \<Rightarrow> (spec_state \<times> simple_lock_t) option" where
  "spec_loop Take_guard (Test_and_set_guard old) l =
     (if old \<noteq> guard l then None
      else if old then Some (Spin_delay, l)
      else Some (Inspect_held, l\<lparr>guard := True\<rparr>))"
| "spec_loop Spin_delay (Delay us) l =
     (if short_delay us then Some (Take_guard, l) else None)"
| "spec_loop Inspect_held (Read_held h) l =
     (if h \<noteq> flag l then None
      else if h then Some (Clear_guard_retry, l)
      else Some (Set_held, l))"
| "spec_loop Set_held (Write_held b) l =
     (if b then Some (Clear_guard_acquired, l\<lparr>flag := True\<rparr>) else None)"
| "spec_loop Clear_guard_acquired (Write_guard b) l =
     (if b then None else Some (Loop_exit, l\<lparr>guard := False\<rparr>))"
| "spec_loop Clear_guard_retry (Write_guard b) l =
     (if b then None else Some (Retry_sleep, l\<lparr>guard := False\<rparr>))"
| "spec_loop Retry_sleep (Delay us) l =
     (if brief_sleep us then Some (Take_guard, l) else None)"
| "spec_loop c a l = None"

text \<open>
  The correspondence: each control point of the source's loop is one state of the
  spec's loop (line 33 lies before the loop, line 57 is the first statement after it),
  and each access with the value it returns is one action, the memory order dropped.
\<close>

fun spec_state_of :: "acq_pc \<Rightarrow> spec_state option" where
  "spec_state_of L33 = None"
| "spec_state_of L38 = Some Take_guard"
| "spec_state_of L40 = Some Spin_delay"
| "spec_state_of L44 = Some Inspect_held"
| "spec_state_of L46 = Some Set_held"
| "spec_state_of L47 = Some Clear_guard_acquired"
| "spec_state_of L52 = Some Clear_guard_retry"
| "spec_state_of L53 = Some Retry_sleep"
| "spec_state_of L57 = Some Loop_exit"

fun spec_action_of :: "access \<Rightarrow> val \<Rightarrow> spec_action option" where
  "spec_action_of (Atomic_test_and_set Guard mo) (Bool_val old) = Some (Test_and_set_guard old)"
| "spec_action_of (Usleep us) v = Some (Delay us)"
| "spec_action_of (Volatile_load Flag) (Bool_val h) = Some (Read_held h)"
| "spec_action_of (Volatile_store Flag b) v = Some (Write_held b)"
| "spec_action_of (Atomic_store_n Flag b mo) v = Some (Write_held b)"
| "spec_action_of (Volatile_store Guard b) v = Some (Write_guard b)"
| "spec_action_of (Atomic_store_n Guard b mo) v = Some (Write_guard b)"
| "spec_action_of a v = None"

subsection \<open>Concrete inputs\<close>

text \<open>
  Structs with arbitrary contents, with the lock held, free, and with both fields
  taken.
\<close>

definition demo_lock :: simple_lock_t where
  "demo_lock = \<lparr>flag = True, guard = True, queue = 7\<rparr>"

definition demo_held :: simple_lock_t where
  "demo_held = \<lparr>flag = True, guard = False, queue = 0\<rparr>"

definition demo_free :: simple_lock_t where
  "demo_free = \<lparr>flag = False, guard = False, queue = 0\<rparr>"

definition demo_taken :: simple_lock_t where
  "demo_taken = \<lparr>flag = True, guard = True, queue = 5\<rparr>"

text \<open>
  Two workers, with store buffers. Worker 0 runs lines 33 to 47; its store of line 47
  (\<^verbatim>\<open>guard = false\<close>) becomes visible while its store of line 46 (\<^verbatim>\<open>flag = true\<close>)
  is still pending; worker 1 runs lines 33 to 44 and reads \<^verbatim>\<open>flag\<close> false; then both
  go on to the end of acquire. In \<open>late_return\<close> the store of line 46 of worker 1
  becomes visible, then worker 0 runs its critical section and releases, and then
  worker 1 runs lines 47 and 57 and returns from acquire.
\<close>

definition overtaking :: "event list" where
  "overtaking = [Exec 0, Exec 0, Exec 0, Exec 0, Exec 0, Visible 0 1,
     Exec 1, Exec 1, Exec 1, Exec 0, Exec 1, Exec 1, Exec 1]"

definition late_return :: "event list" where
  "late_return = [Exec 0, Exec 0, Exec 0, Exec 0, Exec 0, Visible 0 1,
     Exec 1, Exec 1, Exec 1, Exec 0, Exec 1, Visible 1 0,
     Exec 0, Exec 0, Exec 0, Exec 1, Exec 1]"

text \<open>The states in which the statements of one contended call run: the guard is
  found taken once, then the lock is found held once, then the call goes through.\<close>

definition demo_states :: "simple_lock_t list" where
  "demo_states = [demo_held, demo_taken, demo_held, demo_held, demo_held, demo_held,
     demo_held, demo_free, demo_free, demo_held, demo_free, demo_held]"

section \<open>The invariant of the interleaved system\<close>

lemma cnt_Cons: "cnt P (x # xs) = (if P x then Suc (cnt P xs) else cnt P xs)"
  by (simp add: cnt_def)

lemma cnt_Nil: "cnt P [] = 0"
  by (simp add: cnt_def)

lemma cnt_update:
  "i < length xs \<Longrightarrow>
   cnt P (xs[i := x]) =
     (if P (xs ! i) then (if P x then cnt P xs else cnt P xs - 1)
      else (if P x then Suc (cnt P xs) else cnt P xs))"
proof (induction xs arbitrary: i)
  case Nil
  then show ?case by simp
next
  case (Cons y ys)
  show ?case
  proof (cases i)
    case 0
    then show ?thesis by (simp add: cnt_Cons)
  next
    case (Suc k)
    with Cons.prems have k: "k < length ys" by simp
    have "P (ys ! k) \<Longrightarrow> 0 < cnt P ys"
      unfolding cnt_def using k by (metis filter_empty_conv length_greater_0_conv nth_mem)
    with Cons.IH [OF k] Suc show ?thesis by (auto simp: cnt_Cons)
  qed
qed

lemma cnt_pos: "j < length xs \<Longrightarrow> P (xs ! j) \<Longrightarrow> 0 < cnt P xs"
  unfolding cnt_def by (metis filter_empty_conv length_greater_0_conv nth_mem)

lemma cnt_mono: "(\<And>x. P x \<Longrightarrow> Q x) \<Longrightarrow> cnt P xs \<le> cnt Q xs"
  by (induction xs) (auto simp: cnt_Cons cnt_Nil le_SucI)

lemma cnt_replicate: "cnt P (replicate n x) = (if P x then n else 0)"
  by (induction n) (auto simp: cnt_Cons cnt_Nil)

lemma inv_init: "lock_inv (sys_init l0 n)"
  by (simp add: lock_inv_def sys_init_def simple_lock_init_def cnt_replicate)



lemma about_to_set_le: "cnt about_to_set ws \<le> cnt holds_guard ws"
  by (rule cnt_mono) (auto elim: about_to_set.elims)

lemma in_store_le: "cnt in_store ws \<le> cnt holds_flag ws"
  by (rule cnt_mono) (auto elim: in_store.elims)

lemma stale_le: "cnt (stale c) ws \<le> cnt in_store ws"
  by (rule cnt_mono) (auto elim: stale.elims)

lemma inv_step:
  assumes "lock_inv s"
  shows "lock_inv (sys_step i s)"
proof (cases "i < length (workers s)")
  case False
  then show ?thesis using assms by (simp add: sys_step_def)
next
  case True
  note inv = assms [unfolded lock_inv_def]
  note upd = cnt_update [OF True]
  note pos = cnt_pos [OF True]
  show ?thesis
  proof (cases "workers s ! i")
    case (Acquire pc)
    show ?thesis
    proof (cases pc)
      case L33
      with Acquire True inv show ?thesis
        by (simp add: lock_inv_def sys_step_def acquire_step_def upd)
    next
      case L38
      with Acquire True inv show ?thesis
        by (simp add: lock_inv_def sys_step_def acquire_step_def upd)
    next
      case L40
      with Acquire True inv show ?thesis
        by (simp add: lock_inv_def sys_step_def acquire_step_def upd)
    next
      case L44
      with Acquire True inv show ?thesis
        by (simp add: lock_inv_def sys_step_def acquire_step_def upd)
    next
      case L46
      with Acquire True inv pos [of holds_guard] pos [of about_to_set]
        about_to_set_le [of "workers s"] show ?thesis
        by (simp add: lock_inv_def sys_step_def acquire_step_def upd split: if_splits)
    next
      case L47
      with Acquire True inv pos [of holds_guard] show ?thesis
        by (simp add: lock_inv_def sys_step_def acquire_step_def upd split: if_splits)
    next
      case L52
      with Acquire True inv pos [of holds_guard] show ?thesis
        by (simp add: lock_inv_def sys_step_def acquire_step_def upd split: if_splits)
    next
      case L53
      with Acquire True inv show ?thesis
        by (simp add: lock_inv_def sys_step_def acquire_step_def upd)
    next
      case L57
      with Acquire True inv pos [of contending] show ?thesis
        by (simp add: lock_inv_def sys_step_def acquire_step_def upd)
    qed
  next
    case Critical_load
    with True inv show ?thesis
      by (simp add: lock_inv_def sys_step_def upd)
  next
    case (Critical_store tmp)
    have "tmp = counter s"
      using pos [of "stale (counter s)"] inv Critical_store by auto
    moreover have "cnt in_store ((workers s)[i := Release]) = 0"
      using in_store_le [of "workers s"] inv Critical_store by (simp add: upd split: if_splits)
    then have "cnt (stale (counter s + 1)) ((workers s)[i := Release]) = 0"
      using stale_le [of "counter s + 1" "(workers s)[i := Release]"] by simp
    ultimately show ?thesis using Critical_store True inv
      by (simp add: lock_inv_def sys_step_def upd)
  next
    case Release
    with True inv pos [of holds_flag] show ?thesis
      by (simp add: lock_inv_def sys_step_def upd simple_lock_release_def release_access_def
          split: if_splits)
  next
    case Finished
    with True inv show ?thesis
      by (simp add: lock_inv_def sys_step_def upd)
  qed
qed

lemma inv_run: "lock_inv s \<Longrightarrow> lock_inv (run sched s)"
  by (induction sched arbitrary: s) (simp_all add: inv_step)


lemma cnt_unique:
  assumes "cnt P xs \<le> 1" "i < length xs" "j < length xs" "P (xs ! i)" "P (xs ! j)"
  shows "i = j"
  using assms
proof (induction xs arbitrary: i j)
  case Nil
  then show ?case by simp
next
  case (Cons y ys)
  show ?case
  proof (cases i)
    case i0: 0
    show ?thesis
    proof (cases j)
      case 0
      with i0 show ?thesis by simp
    next
      case (Suc j')
      with Cons.prems have "0 < cnt P ys" by (auto intro: cnt_pos)
      with Cons.prems i0 show ?thesis by (simp add: cnt_Cons)
    qed
  next
    case iS: (Suc i')
    show ?thesis
    proof (cases j)
      case 0
      from Cons.prems iS have "0 < cnt P ys" by (auto intro: cnt_pos)
      with Cons.prems 0 show ?thesis by (simp add: cnt_Cons)
    next
      case (Suc j')
      from Cons.prems have "cnt P ys \<le> 1" by (simp add: cnt_Cons split: if_splits)
      from Cons.IH [OF this, of i' j'] Cons.prems iS Suc show ?thesis by simp
    qed
  qed
qed

lemma cnt_all: "list_all P xs \<Longrightarrow> cnt P xs = length xs"
  by (induction xs) (auto simp: cnt_Cons cnt_Nil)

lemma length_sys_step: "length (workers (sys_step i s)) = length (workers s)"
  by (simp add: sys_step_def split: prod.splits)

lemma length_run: "length (workers (run sched s)) = length (workers s)"
  by (induction sched arbitrary: s) (simp_all add: length_sys_step)

lemma inv_reachable: "lock_inv (run sched (sys_init l0 n))"
  by (rule inv_run) (rule inv_init)

lemma in_critical_le: "cnt in_critical ws \<le> cnt holds_flag ws"
  by (rule cnt_mono) (auto elim: in_critical.elims)

lemma holds_flag_le_1: "lock_inv s \<Longrightarrow> cnt holds_flag (workers s) \<le> 1"
  by (simp add: lock_inv_def)

section \<open>Calls of acquire\<close>

lemma acquire_step_keeps_flag: "flag l \<Longrightarrow> flag (snd (acquire_step pc l))"
  by (cases pc) (simp_all add: acquire_step_def)

lemma acquire_never_clears_flag: "\<not> clears Flag (access_at pc)"
  by (cases pc) simp_all










lemma next_pc_not_entry: "next_pc pc v \<noteq> Some L33"
  by (cases pc) simp_all

lemma acquire_step_not_entry: "acquire_step pc l = (Some pc', l') \<Longrightarrow> pc' \<noteq> L33"
  using next_pc_not_entry by (auto simp: acquire_step_def split: prod.splits)

lemma among_to_return:
  "acquire_among pc ls = (as, None) \<Longrightarrow> pc \<noteq> L33 \<Longrightarrow>
   (\<exists>bs. as = bs @ [Atomic_fetch_sub 1 ATOMIC_SEQ_CST]
      \<and> list_all (\<lambda>a. \<not> queue_access a) bs
      \<and> (pc = L57 \<longrightarrow> bs = [])
      \<and> (pc = L47 \<longrightarrow> bs = [Volatile_store Guard False])
      \<and> (pc \<noteq> L47 \<and> pc \<noteq> L57 \<longrightarrow>
           (\<exists>cs. bs = cs @ [Volatile_store Flag True, Volatile_store Guard False])))"
proof (induction ls arbitrary: pc as)
  case Nil
  then show ?case by simp
next
  case (Cons l ls)
  obtain r l' where step: "acquire_step pc l = (r, l')" by (cases "acquire_step pc l")
  show ?case
  proof (cases r)
    case None
    with step have "pc = L57"
      by (cases pc) (auto simp: acquire_step_def split: if_splits)
    with Cons.prems step None show ?thesis by simp
  next
    case (Some pc')
    obtain as' r' where rest: "acquire_among pc' ls = (as', r')"
      by (cases "acquire_among pc' ls")
    with Cons.prems(1) step Some have as: "as = access_at pc # as'" and r': "r' = None"
      by simp_all
    from step Some have ne: "pc' \<noteq> L33" using acquire_step_not_entry [of pc l pc' l'] by simp
    from Cons.IH [OF rest [unfolded r'] ne] obtain bs where
      as': "as' = bs @ [Atomic_fetch_sub 1 ATOMIC_SEQ_CST]"
      and nq: "list_all (\<lambda>a. \<not> queue_access a) bs"
      and e57: "pc' = L57 \<longrightarrow> bs = []"
      and e47: "pc' = L47 \<longrightarrow> bs = [Volatile_store Guard False]"
      and more: "pc' \<noteq> L47 \<and> pc' \<noteq> L57 \<longrightarrow>
         (\<exists>cs. bs = cs @ [Volatile_store Flag True, Volatile_store Guard False])"
      by blast
    let ?bs = "access_at pc # bs"
    have 1: "as = ?bs @ [Atomic_fetch_sub 1 ATOMIC_SEQ_CST]"
      using as as' by simp
    have pc57: "pc \<noteq> L57"
      using step Some by (auto simp: acquire_step_def)
    have 2: "list_all (\<lambda>a. \<not> queue_access a) ?bs"
      using nq pc57 Cons.prems(2) by (cases pc) simp_all
    have 3: "pc = L47 \<longrightarrow> ?bs = [Volatile_store Guard False]"
      using step Some e57 by (auto simp: acquire_step_def)
    have 4: "pc \<noteq> L47 \<and> pc \<noteq> L57 \<longrightarrow>
        (\<exists>cs. ?bs = cs @ [Volatile_store Flag True, Volatile_store Guard False])"
    proof (cases "pc = L46")
      case True
      with step Some have "pc' = L47" by (auto simp: acquire_step_def)
      with e47 True show ?thesis by simp
    next
      case False
      show ?thesis
      proof (intro impI)
        assume a: "pc \<noteq> L47 \<and> pc \<noteq> L57"
        with False step Some Cons.prems(2) have "pc' \<noteq> L47 \<and> pc' \<noteq> L57"
          by (cases pc) (auto simp: acquire_step_def split: if_splits)
        with more obtain cs where
          "bs = cs @ [Volatile_store Flag True, Volatile_store Guard False]"
          by blast
        then have "?bs = (access_at pc # cs) @ [Volatile_store Flag True, Volatile_store Guard False]"
          by simp
        then show "\<exists>cs. ?bs = cs @ [Volatile_store Flag True, Volatile_store Guard False]"
          by blast
      qed
    qed
    from 1 2 3 4 pc57 show ?thesis by blast
  qed
qed

lemma among_from_entry:
  assumes "acquire_among L33 ls = (as, None)"
  shows "\<exists>cs. as = Atomic_fetch_add 1 ATOMIC_SEQ_CST # cs @ acquired_tail
     \<and> list_all (\<lambda>a. \<not> queue_access a) cs"
proof (cases ls)
  case Nil
  with assms show ?thesis by simp
next
  case (Cons l ls')
  obtain as' r' where rest: "acquire_among L38 ls' = (as', r')"
    by (cases "acquire_among L38 ls'")
  with assms Cons have as: "as = access_at L33 # as'" and r': "r' = None"
    by (simp_all add: acquire_step_def)
  from among_to_return [OF rest [unfolded r']] obtain bs cs where
    "as' = bs @ [Atomic_fetch_sub 1 ATOMIC_SEQ_CST]"
    "list_all (\<lambda>a. \<not> queue_access a) bs"
    "bs = cs @ [Volatile_store Flag True, Volatile_store Guard False]"
    by auto
  with as show ?thesis by (auto simp: acquired_tail_def)
qed




lemma filter_none: "list_all (\<lambda>a. \<not> P a) xs \<Longrightarrow> filter P xs = []"
  by (induction xs) auto

lemma among_unfinished:
  "acquire_among pc ls = (as, Some pc') \<Longrightarrow> pc \<noteq> L33 \<Longrightarrow>
   list_all (\<lambda>a. \<not> queue_access a) as"
proof (induction ls arbitrary: pc as)
  case Nil
  then show ?case by simp
next
  case (Cons l ls)
  obtain r l' where step: "acquire_step pc l = (r, l')" by (cases "acquire_step pc l")
  show ?case
  proof (cases r)
    case None
    with Cons.prems step show ?thesis by simp
  next
    case (Some pc1)
    obtain as' r' where rest: "acquire_among pc1 ls = (as', r')"
      by (cases "acquire_among pc1 ls")
    with Cons.prems(1) step Some have as: "as = access_at pc # as'" and r': "r' = Some pc'"
      by simp_all
    from step Some have ne: "pc1 \<noteq> L33"
      using acquire_step_not_entry [of pc l pc1 l'] by simp
    have pc57: "pc \<noteq> L57"
      using step Some by (auto simp: acquire_step_def)
    from Cons.IH [OF rest [unfolded r'] ne] have "list_all (\<lambda>a. \<not> queue_access a) as'" .
    with as pc57 Cons.prems(2) show ?thesis by (cases pc) simp_all
  qed
qed

lemma among_unfinished_entry:
  assumes "acquire_among L33 (l # ls) = (as, Some pc')"
  shows "filter queue_access as = [Atomic_fetch_add 1 ATOMIC_SEQ_CST]"
proof -
  obtain as' r' where rest: "acquire_among L38 ls = (as', r')"
    by (cases "acquire_among L38 ls")
  with assms have as: "as = access_at L33 # as'" and r': "r' = Some pc'"
    by (simp_all add: acquire_step_def)
  from among_unfinished [OF rest [unfolded r']] have "list_all (\<lambda>a. \<not> queue_access a) as'"
    by simp
  then have "filter queue_access as' = []" by (rule filter_none)
  with as show ?thesis by simp
qed

lemma sint_small: "n < 2 ^ 31 \<Longrightarrow> sint (of_nat n :: 32 word) = int n"
  by (simp add: signed_of_nat signed_take_bit_int_eq_self)

lemma cnt_le_length: "cnt P xs \<le> length xs"
  by (simp add: cnt_def)

section \<open>When every store takes effect at once\<close>

text \<open>
  What the lock achieves in the system where every access takes effect at once and in
  program order: the workers exclude each other and no increment is lost, and
  \<^verbatim>\<open>flag\<close> is true as long as a worker owns the lock. The source does not guarantee
  that order for its plain stores, and with store buffers both fail (C1 and C4 below).
\<close>

lemma exclusion_when_stores_take_effect_at_once:
  "cnt in_critical (workers (run sched (sys_init l0 n))) \<le> 1
   \<and> (\<forall>i j. i < n \<and> j < n
        \<and> in_critical (workers (run sched (sys_init l0 n)) ! i)
        \<and> in_critical (workers (run sched (sys_init l0 n)) ! j) \<longrightarrow> i = j)
   \<and> counter (run sched (sys_init l0 n)) = int (cnt incremented (workers (run sched (sys_init l0 n))))
   \<and> (all_finished (run sched (sys_init l0 n)) \<longrightarrow> counter (run sched (sys_init l0 n)) = int n)"
proof -
  define s where "s = run sched (sys_init l0 n)"
  have inv: "lock_inv s"
    unfolding s_def by (rule inv_reachable)
  have len: "length (workers s) = n"
    unfolding s_def by (simp add: length_run sys_init_def)
  have one: "cnt in_critical (workers s) \<le> 1"
    using in_critical_le [of "workers s"] holds_flag_le_1 [OF inv] by simp
  have pair: "i = j" if "i < n" "j < n" "in_critical (workers s ! i)" "in_critical (workers s ! j)" for i j
    using cnt_unique [OF one, of i j] that len by simp
  have cnt: "counter s = int (cnt incremented (workers s))"
    using inv by (simp add: lock_inv_def)
  have fin: "counter s = int n" if "all_finished s"
  proof -
    from that have "list_all incremented (workers s)"
      by (auto simp: all_finished_def list_all_iff)
    then show ?thesis using cnt len by (simp add: cnt_all)
  qed
  from one pair cnt fin show ?thesis
    unfolding s_def by blast
qed

lemma holder_flag:
  assumes "lock_inv s" "i < length (workers s)" "holds_flag (workers s ! i)"
  shows "flag (lock s)"
  using cnt_pos [OF assms(2), of holds_flag] assms(1,3) by (auto simp: lock_inv_def split: if_splits)

lemma owner_flag:
  assumes "lock_inv s" "i < length (workers s)" "owns_lock (workers s ! i)"
  shows "flag (lock s)"
proof -
  from assms(3) have "holds_flag (workers s ! i)" by (auto elim: owns_lock.elims)
  with assms show ?thesis by (auto intro: holder_flag)
qed

section \<open>The system with store buffers\<close>

lemma weak_access_empty:
  "weak_access a [] l =
     (case a of
        Volatile_store f b \<Rightarrow> (No_val, [(f, b)], l)
      | _ \<Rightarrow> (fst (do_access a l), [], snd (do_access a l)))"
  by (cases a) (simp_all split: prod.splits)

lemma weak_step_at_once:
  "weak_step (Visible i 0) (weak_step (Exec i) (weak_of s)) = weak_of (sys_step i s)"
proof (cases "i < length (workers s)")
  case False
  then show ?thesis by (simp add: weak_of_def sys_step_def)
next
  case True
  show ?thesis
  proof (cases "workers s ! i")
    case (Acquire pc)
    with True show ?thesis
      by (cases pc)
        (simp_all add: weak_of_def sys_step_def acquire_step_def may_become_visible_def
          to_field_def map_update split: prod.splits)
  next
    case Critical_load
    with True show ?thesis
      by (simp add: weak_of_def sys_step_def may_become_visible_def map_update)
  next
    case (Critical_store tmp)
    with True show ?thesis
      by (simp add: weak_of_def sys_step_def may_become_visible_def map_update)
  next
    case Release
    with True show ?thesis
      by (simp add: weak_of_def sys_step_def may_become_visible_def map_update
          simple_lock_release_def release_access_def)
  next
    case Finished
    with True show ?thesis
      by (simp add: weak_of_def sys_step_def may_become_visible_def map_update)
  qed
qed

lemma weak_run_at_once: "weak_run (at_once sched) (weak_of s) = weak_of (run sched s)"
proof (induction sched arbitrary: s)
  case Nil
  then show ?case by (simp add: at_once_def)
next
  case (Cons i sched)
  have "weak_run (at_once (i # sched)) (weak_of s)
      = weak_run (at_once sched) (weak_step (Visible i 0) (weak_step (Exec i) (weak_of s)))"
    by (simp add: at_once_def)
  also have "\<dots> = weak_run (at_once sched) (weak_of (sys_step i s))"
    by (simp only: weak_step_at_once)
  also have "\<dots> = weak_of (run sched (sys_step i s))"
    by (rule Cons.IH)
  finally show ?case by simp
qed

lemma weak_init_of: "weak_init l0 n = weak_of (sys_init l0 n)"
  by (simp add: weak_init_def weak_of_def sys_init_def)

lemma weak_admits_every_interleaving:
  "weak_run (at_once sched) (weak_init l0 n) = weak_of (run sched (sys_init l0 n))"
  by (simp only: weak_init_of weak_run_at_once)

section \<open>Independence of the queue field\<close>

lemma step_view:
  "view l1 = view l2 \<Longrightarrow>
   fst (acquire_step pc l1) = fst (acquire_step pc l2)
   \<and> view (snd (acquire_step pc l1)) = view (snd (acquire_step pc l2))"
  by (cases pc) (simp_all add: view_def acquire_step_def)

lemma path_view:
  "view l1 = view l2 \<Longrightarrow>
   map (\<lambda>(pc, l). (pc, view l)) (acquire_path n pc l1)
     = map (\<lambda>(pc, l). (pc, view l)) (acquire_path n pc l2)"
proof (induction n arbitrary: pc l1 l2)
  case 0
  then show ?case by simp
next
  case (Suc n)
  obtain r1 k1 where s1: "acquire_step pc l1 = (r1, k1)" by (cases "acquire_step pc l1")
  obtain r2 k2 where s2: "acquire_step pc l2 = (r2, k2)" by (cases "acquire_step pc l2")
  from step_view [OF Suc.prems, of pc] s1 s2 have r: "r2 = r1" and k: "view k1 = view k2"
    by simp_all
  note s2 = s2 [unfolded r]
  show ?case
  proof (cases r1)
    case None
    with s1 s2 Suc.prems show ?thesis by simp
  next
    case (Some pc')
    with s1 s2 Suc.prems Suc.IH [OF k, of pc'] show ?thesis by simp
  qed
qed

lemma result_view:
  "view l1 = view l2 \<Longrightarrow>
   map_option view (acquire_from n pc l1) = map_option view (acquire_from n pc l2)"
proof (induction n arbitrary: pc l1 l2)
  case 0
  then show ?case by simp
next
  case (Suc n)
  obtain r1 k1 where s1: "acquire_step pc l1 = (r1, k1)" by (cases "acquire_step pc l1")
  obtain r2 k2 where s2: "acquire_step pc l2 = (r2, k2)" by (cases "acquire_step pc l2")
  from step_view [OF Suc.prems, of pc] s1 s2 have r: "r2 = r1" and k: "view k1 = view k2"
    by simp_all
  note s2 = s2 [unfolded r]
  show ?case
  proof (cases r1)
    case None
    with s1 s2 k show ?thesis by simp
  next
    case (Some pc')
    with s1 s2 Suc.IH [OF k, of pc'] show ?thesis by simp
  qed
qed

lemma sys_step_view:
  assumes "sys_view s = sys_view t"
  shows "sys_view (sys_step i s) = sys_view (sys_step i t)"
proof (cases "i < length (workers s)")
  case False
  with assms show ?thesis by (simp add: sys_step_def sys_view_def)
next
  case True
  from assms have w: "workers t = workers s" and c: "counter t = counter s"
    and v: "view (lock s) = view (lock t)"
    by (simp_all add: sys_view_def)
  show ?thesis
  proof (cases "workers s ! i")
    case (Acquire pc)
    obtain r1 k1 where s1: "acquire_step pc (lock s) = (r1, k1)"
      by (cases "acquire_step pc (lock s)")
    obtain r2 k2 where s2: "acquire_step pc (lock t) = (r2, k2)"
      by (cases "acquire_step pc (lock t)")
    from step_view [OF v, of pc] s1 s2 have r: "r2 = r1" and k: "view k1 = view k2"
      by simp_all
    note s2 = s2 [unfolded r]
    from Acquire True w c s1 s2 k show ?thesis
      by (cases r1) (simp_all add: sys_step_def sys_view_def)
  next
    case Critical_load
    with True w c v show ?thesis by (simp add: sys_step_def sys_view_def)
  next
    case (Critical_store tmp)
    with True w c v show ?thesis by (simp add: sys_step_def sys_view_def)
  next
    case Release
    with True w c v show ?thesis
      by (simp add: sys_step_def sys_view_def simple_lock_release_def release_access_def view_def)
  next
    case Finished
    with True w c v show ?thesis by (simp add: sys_step_def sys_view_def)
  qed
qed

lemma run_view: "sys_view s = sys_view t \<Longrightarrow> sys_view (run sched s) = sys_view (run sched t)"
proof (induction sched arbitrary: s t)
  case Nil
  then show ?case by simp
next
  case (Cons i sched)
  from Cons.prems have "sys_view (sys_step i s) = sys_view (sys_step i t)"
    by (rule sys_step_view)
  from Cons.IH [OF this] show ?case by simp
qed

section \<open>The source's loop against the spec's loop\<close>

lemma guard_True_same: "guard l \<Longrightarrow> l\<lparr>guard := True\<rparr> = (l :: simple_lock_t)"
  by (cases l) simp

lemma spec_loop_forward:
  assumes "pc \<noteq> L33" "pc \<noteq> L57"
  shows "\<exists>c a pc' c'. spec_state_of pc = Some c
     \<and> spec_action_of (access_at pc) (fst (do_access (access_at pc) l)) = Some a
     \<and> fst (acquire_step pc l) = Some pc' \<and> spec_state_of pc' = Some c'
     \<and> spec_loop c a l = Some (c', snd (acquire_step pc l))"
  using assms
  by (cases pc) (auto simp: acquire_step_def short_delay_def brief_sleep_def guard_True_same)

lemma spec_loop_backward:
  assumes "spec_state_of pc = Some c" "spec_loop c a l = Some (c', l')"
  shows "\<exists>pc'. fst (acquire_step pc l) = Some pc' \<and> spec_state_of pc' = Some c'
     \<and> l' = snd (acquire_step pc l)"
proof (cases pc)
  case L33
  with assms show ?thesis by simp
next
  case L38
  with assms show ?thesis
    by (cases a) (auto simp: acquire_step_def guard_True_same split: if_splits)
next
  case L40
  with assms show ?thesis
    by (cases a) (auto simp: acquire_step_def split: if_splits)
next
  case L44
  with assms show ?thesis
    by (cases a) (auto simp: acquire_step_def split: if_splits)
next
  case L46
  with assms show ?thesis
    by (cases a) (auto simp: acquire_step_def split: if_splits)
next
  case L47
  with assms show ?thesis
    by (cases a) (auto simp: acquire_step_def split: if_splits)
next
  case L52
  with assms show ?thesis
    by (cases a) (auto simp: acquire_step_def split: if_splits)
next
  case L53
  with assms show ?thesis
    by (cases a) (auto simp: acquire_step_def split: if_splits)
next
  case L57
  with assms show ?thesis by simp
qed

lemma spec_state_onto: "\<exists>pc. spec_state_of pc = Some c"
proof (cases c)
  case Take_guard
  have "spec_state_of L38 = Some Take_guard" by simp
  with Take_guard show ?thesis by blast
next
  case Spin_delay
  have "spec_state_of L40 = Some Spin_delay" by simp
  with Spin_delay show ?thesis by blast
next
  case Inspect_held
  have "spec_state_of L44 = Some Inspect_held" by simp
  with Inspect_held show ?thesis by blast
next
  case Set_held
  have "spec_state_of L46 = Some Set_held" by simp
  with Set_held show ?thesis by blast
next
  case Clear_guard_acquired
  have "spec_state_of L47 = Some Clear_guard_acquired" by simp
  with Clear_guard_acquired show ?thesis by blast
next
  case Clear_guard_retry
  have "spec_state_of L52 = Some Clear_guard_retry" by simp
  with Clear_guard_retry show ?thesis by blast
next
  case Retry_sleep
  have "spec_state_of L53 = Some Retry_sleep" by simp
  with Retry_sleep show ?thesis by blast
next
  case Loop_exit
  have "spec_state_of L57 = Some Loop_exit" by simp
  with Loop_exit show ?thesis by blast
qed

lemma spec_state_inj: "spec_state_of pc = Some c \<Longrightarrow> spec_state_of pc' = Some c \<Longrightarrow> pc = pc'"
  by (cases pc; cases pc') simp_all

section \<open>Properties\<close>

subsection \<open>Initialise and release as functions on the struct\<close>

text \<open>
  C5. \<^verbatim>\<open>simple_lock_release\<close> performs one access, an atomic store of false to
  \<^verbatim>\<open>flag\<close> (held) with release memory order, and changes nothing else: after the call
  \<^verbatim>\<open>guard\<close> and \<^verbatim>\<open>queue\<close> (waiters) have the values they had before it, in every state.
\<close>

theorem release_stores_false_to_flag_only:
  fixes l :: simple_lock_t
  shows "release_access = Atomic_store_n Flag False ATOMIC_RELEASE
     \<and> do_access release_access l = (No_val, l\<lparr>flag := False\<rparr>)
     \<and> simple_lock_release l = l\<lparr>flag := False\<rparr>
     \<and> flag (simple_lock_release l) = False
     \<and> guard (simple_lock_release l) = guard l
     \<and> queue (simple_lock_release l) = queue l"
  by (simp add: simple_lock_release_def release_access_def)

text \<open>
  C6. \<^verbatim>\<open>simple_lock_init\<close> sets \<^verbatim>\<open>flag\<close> and \<^verbatim>\<open>guard\<close> to false and \<^verbatim>\<open>queue\<close> to 0
  whatever the struct held before; so a second call changes nothing, and an acquire
  issued right after it returns (within six statements) holding the lock.
\<close>

theorem init_resets_and_lock_is_usable:
  fixes l :: simple_lock_t
  shows "simple_lock_init l = \<lparr>flag = False, guard = False, queue = 0\<rparr>
     \<and> simple_lock_init (simple_lock_init l) = simple_lock_init l
     \<and> simple_lock_acquire 6 (simple_lock_init l)
         = Some \<lparr>flag = True, guard = False, queue = 0\<rparr>"
  by (simp add: simple_lock_init_def simple_lock_acquire_def acquire_step_def eval_nat_numeral)

text \<open>
  C10. \<^verbatim>\<open>simple_lock_release\<close> is a total function of the struct and is idempotent:
  released twice, the struct is as after one release; released while \<^verbatim>\<open>flag\<close> is
  already false, the struct is unchanged; \<^verbatim>\<open>guard\<close> and \<^verbatim>\<open>queue\<close> are never touched.
\<close>

theorem release_twice_is_release_once:
  fixes l :: simple_lock_t
  shows "simple_lock_release (simple_lock_release l) = simple_lock_release l
     \<and> simple_lock_release (l\<lparr>flag := False\<rparr>) = l\<lparr>flag := False\<rparr>
     \<and> flag (simple_lock_release (simple_lock_release l)) = False
     \<and> guard (simple_lock_release (simple_lock_release l)) = guard l
     \<and> queue (simple_lock_release (simple_lock_release l)) = queue l"
  by (simp add: simple_lock_release_def release_access_def)

subsection \<open>Mutual exclusion\<close>

text \<open>
  C1, evaluated on the source. The claim: at most one thread is inside its critical
  section at any time, and the shared counter ends at the number of increments
  performed. On the source, with two workers on an initialised lock: the store of line
  47 of worker 0 becomes visible before its store of line 46, worker 1 takes
  \<^verbatim>\<open>guard\<close> and reads \<^verbatim>\<open>flag\<close> false, and both workers are in their critical
  sections at once; each then increments the counter, both finish, and the counter
  is 1.
\<close>

theorem two_workers_in_critical_section:
  "map fst (threads (weak_run overtaking (weak_init demo_lock 2)))
     = [Critical_load, Critical_load]
   \<and> cnt in_critical (map fst (threads (weak_run overtaking (weak_init demo_lock 2)))) = 2
   \<and> weak_run (overtaking @ [Exec 0, Exec 1, Exec 0, Exec 1, Exec 0, Exec 1])
        (weak_init demo_lock 2)
     = \<lparr>memory = \<lparr>flag = False, guard = False, queue = 0\<rparr>, shared_counter = 1,
        threads = [(Finished, []), (Finished, [])]\<rparr>"
  by (simp add: overtaking_def demo_lock_def weak_init_def simple_lock_init_def
      may_become_visible_def to_field_def release_access_def cnt_def eval_nat_numeral)

subsection \<open>The flag between acquire and release\<close>

text \<open>
  C4, evaluated on the source. The claim: whenever acquire returns \<^verbatim>\<open>flag\<close> (held) is
  true, and it stays true until the matching release. On the source, with two workers
  admitted together as in C1: worker 0 runs its critical section and releases, then
  worker 1 executes line 57 and returns from acquire; it owns the lock, nothing of
  its own is pending, and \<^verbatim>\<open>flag\<close> is false. What the claim says of the stores is
  right: no statement of acquire stores false to \<^verbatim>\<open>flag\<close>, release does.
\<close>

theorem acquire_returns_with_flag_false:
  "threads (weak_run (butlast late_return) (weak_init demo_lock 2))
     = [(Finished, []), (Acquire L57, [(Guard, False)])]
   \<and> weak_run late_return (weak_init demo_lock 2)
     = \<lparr>memory = \<lparr>flag = False, guard = False, queue = 0\<rparr>, shared_counter = 1,
        threads = [(Finished, []), (Critical_load, [])]\<rparr>
   \<and> owns_lock Critical_load
   \<and> \<not> flag (memory (weak_run late_return (weak_init demo_lock 2)))
   \<and> \<not> clears Flag (access_at pc) \<and> clears Flag release_access"
  by (cases pc)
    (simp_all add: late_return_def demo_lock_def weak_init_def simple_lock_init_def
      may_become_visible_def to_field_def release_access_def eval_nat_numeral)

subsection \<open>The guard is not kept\<close>




subsection \<open>The queue counter\<close>

text \<open>
  C8. Every call of acquire that returns, whatever the other threads do to the struct
  between its statements, has performed exactly two accesses to \<^verbatim>\<open>queue\<close> (waiters):
  the atomic increment as its first access and the atomic decrement as its last,
  right after the stores that set \<^verbatim>\<open>flag\<close> and clear \<^verbatim>\<open>guard\<close>; a call that has
  started and not returned yet has performed the increment and no decrement. Hence, in
  every state that workers reach from an initialised lock, \<^verbatim>\<open>queue\<close> is the number
  of workers inside acquire between their increment and their decrement; with fewer
  than \<open>2 ^ 31\<close> workers the signed value of the 32-bit field is that number and is
  not negative.
\<close>

theorem queue_counts_contenders:
  "(\<forall>ls as. acquire_among L33 ls = (as, None) \<longrightarrow>
      (\<exists>cs. as = Atomic_fetch_add 1 ATOMIC_SEQ_CST # cs @ acquired_tail
          \<and> list_all (\<lambda>a. \<not> queue_access a) cs)
      \<and> filter queue_access as
          = [Atomic_fetch_add 1 ATOMIC_SEQ_CST, Atomic_fetch_sub 1 ATOMIC_SEQ_CST])
   \<and> (\<forall>k ls as pc. acquire_among L33 (k # ls) = (as, Some pc) \<longrightarrow>
        filter queue_access as = [Atomic_fetch_add 1 ATOMIC_SEQ_CST])
   \<and> queue (lock (run sched (sys_init l0 n)))
       = of_nat (cnt contending (workers (run sched (sys_init l0 n))))
   \<and> (n < 2 ^ 31 \<longrightarrow>
        sint (queue (lock (run sched (sys_init l0 n))))
          = int (cnt contending (workers (run sched (sys_init l0 n))))
        \<and> 0 \<le> sint (queue (lock (run sched (sys_init l0 n)))))"
proof -
  define s where "s = run sched (sys_init l0 n)"
  have a: "(\<exists>cs. as = Atomic_fetch_add 1 ATOMIC_SEQ_CST # cs @ acquired_tail
          \<and> list_all (\<lambda>a. \<not> queue_access a) cs)
      \<and> filter queue_access as
          = [Atomic_fetch_add 1 ATOMIC_SEQ_CST, Atomic_fetch_sub 1 ATOMIC_SEQ_CST]"
    if "acquire_among L33 ls = (as, None)" for ls as
  proof -
    from among_from_entry [OF that] obtain cs where
      as: "as = Atomic_fetch_add 1 ATOMIC_SEQ_CST # cs @ acquired_tail"
      and cs: "list_all (\<lambda>a. \<not> queue_access a) cs"
      by blast
    from cs have "filter queue_access cs = []" by (rule filter_none)
    with as cs show ?thesis by (auto simp: acquired_tail_def)
  qed
  have q: "queue (lock s) = of_nat (cnt contending (workers s))"
    using inv_reachable [of sched l0 n] by (simp add: lock_inv_def s_def)
  have len: "length (workers s) = n"
    by (simp add: s_def length_run sys_init_def)
  have b: "sint (queue (lock s)) = int (cnt contending (workers s))
      \<and> 0 \<le> sint (queue (lock s))" if "n < 2 ^ 31"
  proof -
    have "cnt contending (workers s) \<le> n"
      using cnt_le_length [of contending "workers s"] len by simp
    with that have "cnt contending (workers s) < 2 ^ 31" by simp
    then have "sint (of_nat (cnt contending (workers s)) :: 32 word)
        = int (cnt contending (workers s))"
      by (rule sint_small)
    with q show ?thesis by simp
  qed
  from a q b among_unfinished_entry show ?thesis unfolding s_def by blast
qed

theorem queue_counts_contenders_witness:
  "snd (acquire_among L33 demo_states) = None
   \<and> filter queue_access (fst (acquire_among L33 demo_states))
       = [Atomic_fetch_add 1 ATOMIC_SEQ_CST, Atomic_fetch_sub 1 ATOMIC_SEQ_CST]
   \<and> acquire_among L33 [demo_held, demo_taken]
       = ([Atomic_fetch_add 1 ATOMIC_SEQ_CST, Atomic_test_and_set Guard ATOMIC_ACQUIRE], Some L40)
   \<and> filter queue_access
         [Atomic_fetch_add 1 ATOMIC_SEQ_CST, Atomic_test_and_set Guard ATOMIC_ACQUIRE]
       = [Atomic_fetch_add 1 ATOMIC_SEQ_CST]
   \<and> (2 :: nat) < 2 ^ 31
   \<and> cnt contending (workers (run [0, 1, 0] (sys_init demo_lock 2))) = 2
   \<and> sint (queue (lock (run [0, 1, 0] (sys_init demo_lock 2)))) = 2"
proof -
  note t = queue_counts_contenders
    [where sched = "[0, 1, 0]" and ?l0.0 = demo_lock and n = 2]
  have a: "acquire_among L33 demo_states
      = ([Atomic_fetch_add 1 ATOMIC_SEQ_CST,
          Atomic_test_and_set Guard ATOMIC_ACQUIRE, Usleep 10,
          Atomic_test_and_set Guard ATOMIC_ACQUIRE, Volatile_load Flag,
          Volatile_store Guard False, Usleep 100,
          Atomic_test_and_set Guard ATOMIC_ACQUIRE, Volatile_load Flag,
          Volatile_store Flag True, Volatile_store Guard False,
          Atomic_fetch_sub 1 ATOMIC_SEQ_CST], None)"
    by (simp add: demo_states_def demo_held_def demo_free_def demo_taken_def acquire_step_def)
  then have a': "acquire_among L33 demo_states = (fst (acquire_among L33 demo_states), None)"
    by simp
  with t have b: "filter queue_access (fst (acquire_among L33 demo_states))
       = [Atomic_fetch_add 1 ATOMIC_SEQ_CST, Atomic_fetch_sub 1 ATOMIC_SEQ_CST]"
    by blast
  have u: "acquire_among L33 [demo_held, demo_taken]
       = ([Atomic_fetch_add 1 ATOMIC_SEQ_CST, Atomic_test_and_set Guard ATOMIC_ACQUIRE], Some L40)"
    by (simp add: demo_held_def demo_taken_def acquire_step_def)
  with t have u': "filter queue_access
         [Atomic_fetch_add 1 ATOMIC_SEQ_CST, Atomic_test_and_set Guard ATOMIC_ACQUIRE]
       = [Atomic_fetch_add 1 ATOMIC_SEQ_CST]"
    by blast
  have c: "(2 :: nat) < 2 ^ 31" by simp
  have "workers (run [0, 1, 0] (sys_init demo_lock 2)) = [Acquire L44, Acquire L38]"
    by (simp add: demo_lock_def sys_init_def sys_step_def acquire_step_def
        simple_lock_init_def eval_nat_numeral)
  then have d: "cnt contending (workers (run [0, 1, 0] (sys_init demo_lock 2))) = 2"
    by (simp add: cnt_def)
  from t c have "sint (queue (lock (run [0, 1, 0] (sys_init demo_lock 2))))
      = int (cnt contending (workers (run [0, 1, 0] (sys_init demo_lock 2))))"
    by blast
  with d have e: "sint (queue (lock (run [0, 1, 0] (sys_init demo_lock 2)))) = 2"
    by simp
  from a b u u' c d e show ?thesis by simp
qed

text \<open>
  C9. \<^verbatim>\<open>queue\<close> (waiters) never gates admission: with any other value in \<^verbatim>\<open>queue\<close>,
  every statement of acquire goes to the same next control point and leaves the same
  \<^verbatim>\<open>flag\<close> and \<^verbatim>\<open>guard\<close>; a call by a thread running alone visits the same control
  points with the same \<^verbatim>\<open>flag\<close> and \<^verbatim>\<open>guard\<close> and returns, or not, alike; release
  leaves the same \<^verbatim>\<open>flag\<close> and \<^verbatim>\<open>guard\<close>; and under every interleaving the workers,
  the counter, \<^verbatim>\<open>flag\<close> and \<^verbatim>\<open>guard\<close> of the system are the same.
\<close>

theorem queue_never_read:
  fixes l :: simple_lock_t and s :: sys_state
  shows "fst (acquire_step pc (l\<lparr>queue := q\<rparr>)) = fst (acquire_step pc l)
   \<and> view (snd (acquire_step pc (l\<lparr>queue := q\<rparr>))) = view (snd (acquire_step pc l))
   \<and> map (\<lambda>(pc, l). (pc, view l)) (acquire_path m L33 (l\<lparr>queue := q\<rparr>))
       = map (\<lambda>(pc, l). (pc, view l)) (acquire_path m L33 l)
   \<and> map_option view (simple_lock_acquire m (l\<lparr>queue := q\<rparr>))
       = map_option view (simple_lock_acquire m l)
   \<and> view (simple_lock_release (l\<lparr>queue := q\<rparr>)) = view (simple_lock_release l)
   \<and> sys_view (run sched (s\<lparr>lock := (lock s)\<lparr>queue := q\<rparr>\<rparr>)) = sys_view (run sched s)"
proof -
  have v: "view (l\<lparr>queue := q\<rparr>) = view l" by (simp add: view_def)
  have sv: "sys_view (s\<lparr>lock := (lock s)\<lparr>queue := q\<rparr>\<rparr>) = sys_view s"
    by (simp add: sys_view_def view_def)
  from step_view [OF v, of pc] path_view [OF v, of m L33] result_view [OF v, of m L33]
    run_view [OF sv, of sched]
  show ?thesis
    by (simp add: simple_lock_acquire_def simple_lock_release_def release_access_def view_def)
qed

subsection \<open>The algorithm of acquire\<close>

text \<open>
  C2. The loop of acquire is the loop of the spec. At every control point of the
  loop and in every state of the struct, the statement of the source is an action
  that the spec allows in the corresponding state, with the same effect on the struct
  and the corresponding next state: the test-and-set goes to the short delay (10
  microseconds) when it finds \<^verbatim>\<open>guard\<close> true and takes it otherwise; then held is
  read; if false it is set, \<^verbatim>\<open>guard\<close> is cleared and the loop is left; if true
  \<^verbatim>\<open>guard\<close> is cleared and, after a sleep of 100 microseconds, the test-and-set is
  retried. Conversely every action that the spec allows in a state leads where the
  source's statement leads. The correspondence of control points and states is one to
  one and onto, the loop is entered at the test-and-set, and the spec allows nothing
  after the exit.
\<close>

theorem acquire_loop_follows_spec:
  "(pc \<noteq> L33 \<and> pc \<noteq> L57 \<longrightarrow>
      (\<exists>c a pc' c'. spec_state_of pc = Some c
         \<and> spec_action_of (access_at pc) (fst (do_access (access_at pc) l)) = Some a
         \<and> fst (acquire_step pc l) = Some pc' \<and> spec_state_of pc' = Some c'
         \<and> spec_loop c a l = Some (c', snd (acquire_step pc l))))
   \<and> (\<forall>c a c' l'. spec_state_of pc = Some c \<and> spec_loop c a l = Some (c', l') \<longrightarrow>
        (\<exists>pc'. fst (acquire_step pc l) = Some pc' \<and> spec_state_of pc' = Some c'
           \<and> l' = snd (acquire_step pc l)))
   \<and> (\<exists>pc1. spec_state_of pc1 = Some st)
   \<and> (\<forall>pc1 pc2 c. spec_state_of pc1 = Some c \<and> spec_state_of pc2 = Some c \<longrightarrow> pc1 = pc2)
   \<and> fst (acquire_step L33 l) = Some L38 \<and> spec_state_of L38 = Some Take_guard
   \<and> spec_state_of L57 = Some Loop_exit \<and> spec_loop Loop_exit act l = None"
  using spec_loop_forward [of pc l] spec_loop_backward [of pc _ _ l] spec_state_onto [of st]
    spec_state_inj
  by (simp add: acquire_step_def) blast

theorem acquire_loop_follows_spec_witness:
  "L44 \<noteq> L33 \<and> L44 \<noteq> L57
   \<and> spec_state_of L44 = Some Inspect_held
   \<and> spec_loop Inspect_held (Read_held True) demo_held = Some (Clear_guard_retry, demo_held)
   \<and> fst (acquire_step L44 demo_held) = Some L52
   \<and> spec_state_of L52 = Some Clear_guard_retry
   \<and> snd (acquire_step L44 demo_held) = demo_held"
proof -
  note t = acquire_loop_follows_spec
    [where pc = L44 and l = demo_held and st = Take_guard and act = "Delay 0"]
  have a: "L44 \<noteq> L33 \<and> L44 \<noteq> L57" by simp
  have b: "spec_state_of L44 = Some Inspect_held" by simp
  have c: "spec_loop Inspect_held (Read_held True) demo_held = Some (Clear_guard_retry, demo_held)"
    by (simp add: demo_held_def)
  from t b c obtain pc' where
    d: "fst (acquire_step L44 demo_held) = Some pc'"
    and e: "spec_state_of pc' = Some Clear_guard_retry"
    and f: "demo_held = snd (acquire_step L44 demo_held)"
    by blast
  from e have "pc' = L52" by (cases pc') simp_all
  with a b c d e f show ?thesis by simp
qed

subsection \<open>Memory orders\<close>

text \<open>
  C3, evaluated on the source. The test-and-set of line 38 has acquire order. The
  statements of acquire that clear \<^verbatim>\<open>guard\<close> are those of lines 47 and 52 and no
  others; both are plain stores to the volatile field and carry no memory order, so
  neither has release order, while the store of release has it. A call on a freshly
  initialised lock performs the plain store of line 47.
\<close>

theorem guard_cleared_by_plain_store:
  fixes l :: simple_lock_t
  shows "access_at L38 = Atomic_test_and_set Guard ATOMIC_ACQUIRE
   \<and> clears Guard (access_at pc) = (pc = L47 \<or> pc = L52)
   \<and> access_at L47 = Volatile_store Guard False \<and> order_of (access_at L47) = None
   \<and> access_at L52 = Volatile_store Guard False \<and> order_of (access_at L52) = None
   \<and> order_of (access_at L47) \<noteq> Some ATOMIC_RELEASE
   \<and> order_of (access_at L52) \<noteq> Some ATOMIC_RELEASE
   \<and> order_of release_access = Some ATOMIC_RELEASE
   \<and> map (\<lambda>(pc, k). access_at pc) (acquire_path 6 L33 (simple_lock_init l))
       = [Atomic_fetch_add 1 ATOMIC_SEQ_CST, Atomic_test_and_set Guard ATOMIC_ACQUIRE,
          Volatile_load Flag, Volatile_store Flag True, Volatile_store Guard False,
          Atomic_fetch_sub 1 ATOMIC_SEQ_CST]"
  by (cases pc) (simp_all add: release_access_def simple_lock_init_def acquire_step_def eval_nat_numeral)

end
